theory Spec2Isabelle
  imports Main "HOL-Library.Monad_Syntax"
begin

section \<open>Bytes, constants and errors of package irc\<close>

text \<open>
  A Go string is a sequence of bytes, and so is an Isabelle \<open>string\<close>: every \<open>char\<close> is
  one byte. The three bytes the framer treats specially get names.
\<close>

abbreviation NUL :: char where "NUL \<equiv> CHR 0x00"
abbreviation LF :: char where "LF \<equiv> CHR 0x0A"
abbreviation CR :: char where "CR \<equiv> CHR 0x0D"

text \<open>\<^verbatim>\<open>const MaxBytes = 512\<close> and \<^verbatim>\<open>const delimiter = "\r\n"\<close>. Go's \<open>int\<close> is modelled
  by \<open>int\<close>: every count below is bounded by the length of a string held in memory.\<close>

definition MaxBytes :: int where
  "MaxBytes = 512"

definition delimiter :: string where
  "delimiter = [CR, LF]"

text \<open>
  The values of Go's \<open>error\<close> interface that occur: \<open>io.EOF\<close>, a value made by
  \<open>errors.New\<close>, the struct \<open>MsgTooLong{Message, NTrunc}\<close>, and any other failure of the
  byte source, which is opaque to the package.
\<close>

datatype error =
    EOF
  | ErrorString string
  | MsgTooLong string int
  | SourceFailure string

definition unexpected :: "string \<Rightarrow> error" where
  "unexpected what = ErrorString (''unexpected '' @ what @ '' in message stream'')"

section \<open>The byte source\<close>

text \<open>
  \<open>bufio.Reader\<close> is used through \<open>ReadByte\<close> only. The reader is the bytes not yet
  consumed, and the error the source answers with once they are used up (\<open>io.EOF\<close> for a
  source that ends, anything else for a source that fails).
\<close>

record reader =
  pending :: string
  closing :: error

definition ReadByte :: "reader \<Rightarrow> (error + char) \<times> reader" where
  "ReadByte r =
     (case pending r of
        [] \<Rightarrow> (Inl (closing r), r)
      | c # cs \<Rightarrow> (Inr c, r\<lparr>pending := cs\<rparr>))"

text \<open>A reader over the bytes \<open>bs\<close> whose source then answers \<open>e\<close>.\<close>

abbreviation src :: "string \<Rightarrow> error \<Rightarrow> reader" where
  "src bs e \<equiv> \<lparr>pending = bs, closing = e\<rparr>"

section \<open>The framer: junk and readMsgData\<close>

text \<open>
  \<open>junk\<close> reads and discards bytes until it has seen the delimiter. Its loop carries
  the previous byte (\<open>last\<close> in the source, \<open>last0\<close> here; initially the zero
  byte) and the count \<open>n\<close> of bytes read.
  It returns \<open>(n - 1, nil)\<close> after the delimiter and \<open>(n, err)\<close> when the read fails.
\<close>

function junk_loop :: "char \<Rightarrow> int \<Rightarrow> reader \<Rightarrow> (int \<times> error option) \<times> reader" where
  "junk_loop last0 n r =
     (case ReadByte r of
        (Inl err, r1) \<Rightarrow> ((n, Some err), r1)
      | (Inr c, r1) \<Rightarrow>
          (let n1 = n + 1 in
           if last0 = delimiter ! 0 \<and> c = delimiter ! 1 then ((n1 - 1, None), r1)
           else junk_loop c n1 r1))"
  by pat_completeness auto
termination
  by (relation "measure (\<lambda>(last0, n, r). length (pending r))")
     (auto simp: ReadByte_def split: list.splits)

definition junk :: "reader \<Rightarrow> (int \<times> error option) \<times> reader" where
  "junk r = junk_loop NUL 0 r"

text \<open>
  \<open>readMsgData\<close>: the cases of the \<open>switch\<close> in the order of the source. The Go function
  returns the empty string with every error, so the result is a sum. The slice
  \<open>msg[:len(msg)-1]\<close> is taken only where \<open>len(msg) \<ge> 510\<close>, so it is in bounds.
\<close>

function readMsgData_loop :: "string \<Rightarrow> reader \<Rightarrow> (error + string) \<times> reader" where
  "readMsgData_loop msg r =
     (case ReadByte r of
        (Inl err, r1) \<Rightarrow>
          if err = EOF \<and> int (length msg) > 0 then (Inl (unexpected ''end of file''), r1)
          else (Inl err, r1)
      | (Inr c, r1) \<Rightarrow>
          if c = NUL then (Inl (unexpected ''null''), r1)
          else if c = LF then readMsgData_loop msg r1
          else if c = CR then
            (case ReadByte r1 of
               (Inl err, r2) \<Rightarrow>
                 (Inl (if err = EOF then unexpected ''end of file'' else err), r2)
             | (Inr c2, r2) \<Rightarrow>
                 if c2 \<noteq> LF then (Inl (unexpected ''carrage return''), r2)
                 else if length msg = 0 then readMsgData_loop msg r2
                 else (Inr msg, r2))
          else if int (length msg) \<ge> MaxBytes - int (length delimiter) then
            (case junk r1 of
               ((n, _), r2) \<Rightarrow> (Inl (MsgTooLong (take (length msg - 1) msg) (n + 1)), r2))
          else readMsgData_loop (msg @ [c]) r1)"
  by pat_completeness auto
termination
  by (relation "measure (\<lambda>(msg, r). length (pending r))")
     (auto simp: ReadByte_def split: list.splits)

definition readMsgData :: "reader \<Rightarrow> (error + string) \<times> reader" where
  "readMsgData r = readMsgData_loop [] r"

section \<open>Messages\<close>

text \<open>\<open>type Command string\<close>; \<open>Command.String\<close> is the identity on the bytes.\<close>

record Message =
  Raw :: string
  Origin :: string
  User :: string
  Host :: string
  Command :: string
  Arguments :: "string list"

text \<open>
  The library functions used, on byte strings. \<open>strings.TrimLeft\<close> and
  \<open>strings.TrimRight\<close> remove the leading (trailing) bytes that occur in the cutset;
  the source passes one-byte ASCII cutsets only. \<open>strings.Join\<close> concatenates with the
  separator in between.
\<close>

definition TrimLeft :: "string \<Rightarrow> string \<Rightarrow> string" where
  "TrimLeft s cutset = dropWhile (\<lambda>c. c \<in> set cutset) s"

definition TrimRight :: "string \<Rightarrow> string \<Rightarrow> string" where
  "TrimRight s cutset = rev (dropWhile (\<lambda>c. c \<in> set cutset) (rev s))"

fun Join :: "string list \<Rightarrow> string \<Rightarrow> string" where
  "Join [] sep = []"
| "Join [x] sep = x"
| "Join (x # y # zs) sep = x @ sep @ Join (y # zs) sep"

text \<open>
  \<open>strings.SplitN(s, delim, 2)\<close> for a one-byte delimiter: the part before the first
  occurrence and the part after it, or \<open>s\<close> alone when the delimiter does not occur.
  Every call of \<open>splitString\<close> in the source passes a one-byte literal
  (\<open>" "\<close>, \<open>"!"\<close>, \<open>"@"\<close>), so the delimiter is a byte here.
\<close>

definition SplitN2 :: "string \<Rightarrow> char \<Rightarrow> string list" where
  "SplitN2 s delim =
     (if delim \<in> set s
      then [takeWhile (\<lambda>c. c \<noteq> delim) s, drop 1 (dropWhile (\<lambda>c. c \<noteq> delim) s)]
      else [s])"

text \<open>
  Indexing and slicing panic out of range in Go. A panic is \<open>None\<close>: \<open>s[i]\<close> needs
  \<open>i < len(s)\<close> and \<open>s[i:]\<close> needs \<open>i \<le> len(s)\<close>.
\<close>

definition index_at :: "'a list \<Rightarrow> nat \<Rightarrow> 'a option" where
  "index_at s i = (if i < length s then Some (s ! i) else None)"

definition slice_from :: "'a list \<Rightarrow> nat \<Rightarrow> 'a list option" where
  "slice_from s i = (if i \<le> length s then Some (drop i s) else None)"

definition splitString :: "string \<Rightarrow> char \<Rightarrow> (string \<times> string) option" where
  "splitString s delim =
     do {
       let parts = SplitN2 s delim;
       head \<leftarrow> index_at parts 0;
       rest \<leftarrow> slice_from parts 1;
       let cons = Join rest [delim];
       let cons = (if delim = CHR '' '' then TrimLeft cons [delim] else cons);
       Some (head, cons)
     }"

section \<open>Parse\<close>

text \<open>
  The argument loop of \<open>Parse\<close>, \<open>for len(data) > 0\<close>, with the remaining text and the
  arguments appended so far.
\<close>

function Parse_loop :: "string \<Rightarrow> string list \<Rightarrow> string list option" where
  "Parse_loop data args =
     (if length data > 0 then
        (case index_at data 0 of
           None \<Rightarrow> None
         | Some c \<Rightarrow>
             if c = CHR '':'' then
               (case slice_from data 1 of
                  None \<Rightarrow> None
                | Some arg \<Rightarrow> Parse_loop [] (args @ [arg]))
             else
               (case splitString data (CHR '' '') of
                  None \<Rightarrow> None
                | Some (arg, data') \<Rightarrow> Parse_loop data' (args @ [arg])))
      else Some args)"
  by pat_completeness auto
termination
proof (relation "measure (\<lambda>(data, args). length data)", goal_cases)
  case 1
  show ?case by simp
next
  case (2 data args c arg)
  then show ?case by simp
next
  case (3 data args c x arg data')
  have "length (dropWhile P (drop (Suc 0) (dropWhile Q data))) < length data" for P Q
  proof -
    have "length (dropWhile P (drop (Suc 0) (dropWhile Q data)))
            \<le> length (drop (Suc 0) (dropWhile Q data))"
      by (rule length_dropWhile_le)
    also have "\<dots> = length (dropWhile Q data) - 1" by simp
    also have "\<dots> < length data"
      using 3(1) length_dropWhile_le [of Q data] by arith
    finally show ?thesis .
  qed
  with 3 show ?case
    by (auto simp: splitString_def SplitN2_def index_at_def slice_from_def TrimLeft_def
             split: if_splits)
qed

text \<open>
  \<open>Parse\<close> returns \<open>(msg, nil)\<close> on every path that returns; \<open>None\<close> is a panic of one
  of its index expressions.
\<close>

definition Parse :: "string \<Rightarrow> (error + Message) option" where
  "Parse data0 =
     do {
       let msg = \<lparr>Raw = data0, Origin = [], User = [], Host = [], Command = [],
                  Arguments = []\<rparr>;
       c \<leftarrow> index_at data0 0;
       (msg, data) \<leftarrow>
         (if c = CHR '':'' then
            do {
              d \<leftarrow> slice_from data0 1;
              (prefix, data) \<leftarrow> splitString d (CHR '' '');
              (origin, prefix) \<leftarrow> splitString prefix (CHR ''!'');
              (user, host) \<leftarrow> splitString prefix (CHR ''@'');
              Some (msg\<lparr>Origin := origin, User := user, Host := host\<rparr>, data)
            }
          else Some (msg, data0));
       (cmd, data) \<leftarrow> splitString data (CHR '' '');
       let msg = msg\<lparr>Command := cmd\<rparr>;
       args \<leftarrow> Parse_loop data (Arguments msg);
       Some (Inr (msg\<lparr>Arguments := args\<rparr>))
     }"

section \<open>RawString\<close>

text \<open>
  The text held in \<open>raw\<close> when control reaches the label \<open>out\<close>: \<open>m.Raw\<close> if that is
  non-empty, otherwise the text built from the fields. The \<open>range\<close> loop is a left fold
  over the arguments paired with their indices.
\<close>

definition buildRaw :: "Message \<Rightarrow> string" where
  "buildRaw m =
     (if Raw m \<noteq> [] then Raw m
      else
        (let raw = [];
             raw = (if Origin m \<noteq> [] then
                      (let raw = raw @ '':'' @ Origin m;
                           raw = (if User m \<noteq> [] then raw @ ''!'' @ User m @ ''@'' @ Host m
                                  else raw)
                       in raw @ '' '')
                    else raw);
             raw = raw @ Command m
         in foldl (\<lambda>raw (i, a).
                     if i = length (Arguments m) - 1 then raw @ '' :'' @ a
                     else raw @ '' '' @ a)
              raw (List.enumerate 0 (Arguments m))))"

text \<open>The code after \<open>out\<close>: the length guard on \<open>raw\<close>, then \<open>TrimRight\<close> on return.\<close>

definition RawString :: "Message \<Rightarrow> error + string" where
  "RawString m =
     (let raw = buildRaw m in
      if int (length raw) > MaxBytes - int (length delimiter)
      then Inl (MsgTooLong raw (int (length raw) - (MaxBytes - int (length delimiter))))
      else Inr (TrimRight raw [LF]))"

section \<open>Auxiliary notions for the statements\<close>

text \<open>Whether the two-byte delimiter \<open>CR LF\<close> occurs in a byte sequence.\<close>

fun hasDelimiter :: "string \<Rightarrow> bool" where
  "hasDelimiter (a # b # cs) = ((a = CR \<and> b = LF) \<or> hasDelimiter (b # cs))"
| "hasDelimiter _ = False"

text \<open>
  Argument extraction in the words of the specification, to compare the loop of
  \<open>Parse\<close> with: skip the spaces in front; then nothing is left, or a colon makes what
  follows it the final argument, or the bytes up to the next space are the next
  argument and extraction goes on behind them.
\<close>

function spec_args :: "string \<Rightarrow> string list" where
  "spec_args rem =
     (case dropWhile (\<lambda>c. c = CHR '' '') rem of
        [] \<Rightarrow> []
      | c # cs \<Rightarrow>
          if c = CHR '':'' then [cs]
          else takeWhile (\<lambda>c. c \<noteq> CHR '' '') (c # cs)
                 # spec_args (dropWhile (\<lambda>c. c \<noteq> CHR '' '') (c # cs)))"
  by pat_completeness auto
termination
proof (relation "measure length", goal_cases)
  case 1
  show ?case by simp
next
  case (2 rem c cs)
  from 2(1) have "c \<noteq> CHR '' ''"
    by (metis (mono_tags, lifting) dropWhile_eq_Cons_conv)
  then have "length (dropWhile (\<lambda>c. c \<noteq> CHR '' '') (c # cs)) \<le> length cs"
    by (simp add: length_dropWhile_le)
  also have "length cs < length (dropWhile (\<lambda>c. c = CHR '' '') rem)"
    using 2(1) by simp
  also have "\<dots> \<le> length rem" by (rule length_dropWhile_le)
  finally show ?case by simp
qed

section \<open>The framer, one byte at a time\<close>

text \<open>
  Each equation below is one path through the body of a loop for a reader whose next
  bytes are known. The recursive equations themselves are taken out of the simpset.
\<close>

declare readMsgData_loop.simps [simp del] junk_loop.simps [simp del]

lemma ReadByte_Nil: "ReadByte (src [] e) = (Inl e, src [] e)"
  by (simp add: ReadByte_def)

lemma ReadByte_Cons: "ReadByte (src (c # cs) e) = (Inr c, src cs e)"
  by (simp add: ReadByte_def)

lemma guard_510: "(MaxBytes - int (length delimiter) \<le> int (length msg)) = (510 \<le> length msg)"
  by (simp add: MaxBytes_def delimiter_def)

lemma loop_Nil:
  "readMsgData_loop msg (src [] e) =
     (if e = EOF \<and> msg \<noteq> [] then Inl (unexpected ''end of file'') else Inl e, src [] e)"
  by (subst readMsgData_loop.simps) (simp add: ReadByte_Nil)

lemma loop_NUL: "readMsgData_loop msg (src (NUL # cs) e) = (Inl (unexpected ''null''), src cs e)"
  by (subst readMsgData_loop.simps) (simp add: ReadByte_Cons)

lemma loop_LF: "readMsgData_loop msg (src (LF # cs) e) = readMsgData_loop msg (src cs e)"
  by (subst readMsgData_loop.simps) (simp add: ReadByte_Cons)

lemma loop_CR_end:
  "readMsgData_loop msg (src [CR] e) =
     (Inl (if e = EOF then unexpected ''end of file'' else e), src [] e)"
  by (subst readMsgData_loop.simps) (simp add: ReadByte_Cons ReadByte_Nil)

lemma loop_CR_LF:
  "readMsgData_loop msg (src (CR # LF # cs) e) =
     (if msg = [] then readMsgData_loop msg (src cs e) else (Inr msg, src cs e))"
  by (subst readMsgData_loop.simps) (simp add: ReadByte_Cons)

lemma loop_CR_other:
  "c \<noteq> LF \<Longrightarrow>
   readMsgData_loop msg (src (CR # c # cs) e) = (Inl (unexpected ''carrage return''), src cs e)"
  by (subst readMsgData_loop.simps) (simp add: ReadByte_Cons)

lemma loop_full:
  "c \<noteq> NUL \<Longrightarrow> c \<noteq> LF \<Longrightarrow> c \<noteq> CR \<Longrightarrow> 510 \<le> length msg \<Longrightarrow>
   readMsgData_loop msg (src (c # cs) e) =
     (Inl (MsgTooLong (butlast msg) (fst (fst (junk (src cs e))) + 1)), snd (junk (src cs e)))"
  by (subst readMsgData_loop.simps)
     (simp add: ReadByte_Cons guard_510 butlast_conv_take split: prod.splits)

lemma loop_append:
  "c \<noteq> NUL \<Longrightarrow> c \<noteq> LF \<Longrightarrow> c \<noteq> CR \<Longrightarrow> length msg < 510 \<Longrightarrow>
   readMsgData_loop msg (src (c # cs) e) = readMsgData_loop (msg @ [c]) (src cs e)"
  by (subst readMsgData_loop.simps) (simp add: ReadByte_Cons guard_510)

lemma loop_accumulate:
  "NUL \<notin> set pre \<Longrightarrow> CR \<notin> set pre \<Longrightarrow>
   length msg + length (filter (\<lambda>c. c \<noteq> LF) pre) \<le> 510 \<Longrightarrow>
   readMsgData_loop msg (src (pre @ rest) e) =
     readMsgData_loop (msg @ filter (\<lambda>c. c \<noteq> LF) pre) (src rest e)"
proof (induction pre arbitrary: msg)
  case Nil
  then show ?case by simp
next
  case (Cons c pre)
  show ?case
  proof (cases "c = LF")
    case True
    with Cons show ?thesis by (simp add: loop_LF)
  next
    case False
    with Cons.prems have "length msg < 510" "c \<noteq> NUL" "c \<noteq> CR" by auto
    with False Cons show ?thesis by (simp add: loop_append)
  qed
qed

lemma junk_Nil: "junk_loop l n (src [] e) = ((n, Some e), src [] e)"
  by (subst junk_loop.simps) (simp add: ReadByte_Nil)

lemma junk_Cons:
  "junk_loop l n (src (c # cs) e) =
     (if l = CR \<and> c = LF then ((n, None), src cs e) else junk_loop c (n + 1) (src cs e))"
  by (subst junk_loop.simps) (simp add: ReadByte_Cons delimiter_def Let_def)

lemma junk_skip:
  "\<not> hasDelimiter (l # xs) \<Longrightarrow>
   junk_loop l n (src (xs @ rest) e) = junk_loop (last (l # xs)) (n + int (length xs)) (src rest e)"
proof (induction xs arbitrary: l n)
  case Nil
  then show ?case by simp
next
  case (Cons x xs)
  then show ?case by (auto simp: junk_Cons add.assoc)
qed

lemma hasDelimiter_Cons_other: "a \<noteq> CR \<Longrightarrow> hasDelimiter (a # xs) = hasDelimiter xs"
  by (cases xs) auto

lemma hasDelimiter_snoc_CR: "hasDelimiter (xs @ [CR]) = hasDelimiter xs"
  by (induction xs rule: hasDelimiter.induct) auto

lemma junk_found:
  assumes "\<not> hasDelimiter xs"
  shows "junk (src (xs @ CR # LF # rest) e) = ((int (length xs) + 1, None), src rest e)"
proof -
  have "\<not> hasDelimiter (NUL # xs @ [CR])"
    using assms by (simp add: hasDelimiter_Cons_other hasDelimiter_snoc_CR)
  then have "junk_loop NUL 0 (src ((xs @ [CR]) @ LF # rest) e) =
      junk_loop (last (NUL # xs @ [CR])) (0 + int (length (xs @ [CR]))) (src (LF # rest) e)"
    by (rule junk_skip)
  then show ?thesis by (simp add: junk_def junk_Cons)
qed

lemma junk_ended:
  assumes "\<not> hasDelimiter xs"
  shows "junk (src xs e) = ((int (length xs), Some e), src [] e)"
proof -
  have "\<not> hasDelimiter (NUL # xs)" using assms by (simp add: hasDelimiter_Cons_other)
  then show ?thesis using junk_skip [of NUL xs 0 "[]" e] by (simp add: junk_def junk_Nil)
qed

lemma filter_ordinary:
  "set bs \<inter> {NUL, LF, CR} = {} \<Longrightarrow> filter (\<lambda>c. c \<noteq> LF) bs = bs"
  by (induction bs) auto

lemma read_ordinary:
  assumes "set bs \<inter> {NUL, LF, CR} = {}" and "length msg + length bs \<le> 510"
  shows "readMsgData_loop msg (src (bs @ rest) e) = readMsgData_loop (msg @ bs) (src rest e)"
proof -
  from assms(1) have "NUL \<notin> set bs" "CR \<notin> set bs" by auto
  moreover from assms have "length msg + length (filter (\<lambda>c. c \<noteq> LF) bs) \<le> 510"
    by (simp add: filter_ordinary)
  ultimately show ?thesis
    using loop_accumulate [of bs msg rest e] assms(1) by (simp add: filter_ordinary)
qed

lemma read_frame:
  assumes "set bs \<inter> {NUL, LF, CR} = {}" and "length bs \<le> 510" and "bs \<noteq> []"
  shows "readMsgData (src (bs @ CR # LF # rest) e) = (Inr bs, src rest e)"
  using read_ordinary [of bs "[]" "CR # LF # rest" e] assms
  by (simp add: readMsgData_def loop_CR_LF)

lemma read_too_long:
  assumes "set bs \<inter> {NUL, LF, CR} = {}" and "length bs = 510" and "c \<notin> {NUL, LF, CR}"
  shows "readMsgData (src (bs @ c # rest) e) =
           (Inl (MsgTooLong (butlast bs) (fst (fst (junk (src rest e))) + 1)),
            snd (junk (src rest e)))"
  using read_ordinary [of bs "[]" "c # rest" e] assms
  by (simp add: readMsgData_def loop_full)

section \<open>Claims about the framer\<close>

text \<open>
  C6. Reading the bytes \<open>a CR LF b CR LF CR LF c CR LF\<close> call after call gives the
  messages \<open>a\<close>, \<open>b\<close> and \<open>c\<close> and then \<open>io.EOF\<close>: the third call skips the empty frame
  and returns \<open>c\<close>. In general a delimiter met with nothing accumulated is skipped and
  the loop goes on with what follows.
\<close>

theorem C6_empty_frame_skipped:
  "readMsgData (src (''a'' @ [CR, LF] @ ''b'' @ [CR, LF] @ [CR, LF] @ ''c'' @ [CR, LF]) EOF)
     = (Inr ''a'', src (''b'' @ [CR, LF] @ [CR, LF] @ ''c'' @ [CR, LF]) EOF)
   \<and> readMsgData (src (''b'' @ [CR, LF] @ [CR, LF] @ ''c'' @ [CR, LF]) EOF)
     = (Inr ''b'', src ([CR, LF] @ ''c'' @ [CR, LF]) EOF)
   \<and> readMsgData (src ([CR, LF] @ ''c'' @ [CR, LF]) EOF) = (Inr ''c'', src [] EOF)
   \<and> readMsgData (src [] EOF) = (Inl EOF, src [] EOF)
   \<and> readMsgData_loop [] (src (CR # LF # cs) e) = readMsgData_loop [] (src cs e)"
  by (simp add: readMsgData_def loop_append loop_CR_LF loop_Nil)

text \<open>
  C2. A stream of 510 ordinary bytes followed by \<open>CR LF\<close> (512 bytes) is read as one
  message of \<open>MaxBytes - 2\<close> bytes. A stream of 511 ordinary bytes followed by a bare
  \<open>CR\<close> gives \<open>MsgTooLong\<close>, and by then the reader has been advanced past the next
  \<open>CR LF\<close>, or to its end when there is none; a well-formed message that follows that
  delimiter is what the next call returns.
\<close>

theorem C2_longest_message_and_resync:
  assumes "length filler = 510" and "set filler \<inter> {NUL, LF, CR} = {}"
    and "c \<notin> {NUL, LF, CR}"
    and "\<not> hasDelimiter (CR # skipped)"
    and "nxt \<noteq> []" and "length nxt \<le> 510" and "set nxt \<inter> {NUL, LF, CR} = {}"
  shows "readMsgData (src (filler @ [CR, LF]) e) = (Inr filler, src [] e)
       \<and> int (length filler) = MaxBytes - 2
       \<and> readMsgData (src (filler @ c # CR # skipped) e)
           = (Inl (MsgTooLong (butlast filler) (int (length skipped) + 2)), src [] e)
       \<and> readMsgData (src (filler @ c # CR # skipped @ CR # LF # nxt @ CR # LF # rest) e)
           = (Inl (MsgTooLong (butlast filler) (int (length skipped) + 3)),
              src (nxt @ CR # LF # rest) e)
       \<and> readMsgData (src (nxt @ CR # LF # rest) e) = (Inr nxt, src rest e)"
proof -
  from assms(1) have ne: "filler \<noteq> []" by auto
  have one: "readMsgData (src (filler @ [CR, LF]) e) = (Inr filler, src [] e)"
    using read_frame [OF assms(2) _ ne, of "[]" e] assms(1) by simp
  have len: "int (length filler) = MaxBytes - 2"
    using assms(1) by (simp add: MaxBytes_def)
  have ended: "junk (src (CR # skipped) e) = ((int (length skipped) + 1, Some e), src [] e)"
    using junk_ended [OF assms(4), of e] by simp
  have found: "junk (src (CR # skipped @ CR # LF # nxt @ CR # LF # rest) e)
                 = ((int (length skipped) + 2, None), src (nxt @ CR # LF # rest) e)"
    using junk_found [OF assms(4), of "nxt @ CR # LF # rest" e] by simp
  have two: "readMsgData (src (filler @ c # CR # skipped) e)
      = (Inl (MsgTooLong (butlast filler) (int (length skipped) + 2)), src [] e)"
    using read_too_long [OF assms(2,1,3), of "CR # skipped" e] by (simp add: ended)
  have three: "readMsgData (src (filler @ c # CR # skipped @ CR # LF # nxt @ CR # LF # rest) e)
      = (Inl (MsgTooLong (butlast filler) (int (length skipped) + 3)),
         src (nxt @ CR # LF # rest) e)"
    using read_too_long [OF assms(2,1,3), of "CR # skipped @ CR # LF # nxt @ CR # LF # rest" e]
    by (simp add: found)
  have four: "readMsgData (src (nxt @ CR # LF # rest) e) = (Inr nxt, src rest e)"
    using read_frame [OF assms(7,6,5)] .
  from one len two three four show ?thesis by blast
qed

theorem C2_longest_message_and_resync_witness:
  "readMsgData (src (replicate 510 (CHR ''a'') @ [CR, LF]) EOF)
     = (Inr (replicate 510 (CHR ''a'')), src [] EOF)
   \<and> readMsgData (src (replicate 510 (CHR ''a'') @ CHR ''a'' # [CR]) EOF)
     = (Inl (MsgTooLong (butlast (replicate 510 (CHR ''a''))) 2), src [] EOF)
   \<and> readMsgData (src (replicate 510 (CHR ''a'') @ CHR ''a'' # CR # [] @ CR # LF # ''c''
                          @ CR # LF # []) EOF)
     = (Inl (MsgTooLong (butlast (replicate 510 (CHR ''a''))) 3), src (''c'' @ CR # LF # []) EOF)
   \<and> readMsgData (src (''c'' @ CR # LF # []) EOF) = (Inr ''c'', src [] EOF)"
  using C2_longest_message_and_resync
    [of "replicate 510 (CHR ''a'')" "CHR ''a''" "[]" "''c''" EOF "[]"]
  by simp

lemma truncation_error_contents:
  assumes "MaxBytes - int (length delimiter) \<le> int (length msg)"
    and "c \<notin> {NUL, LF, CR}"
    and "\<not> hasDelimiter skipped"
  shows "readMsgData_loop msg (src (c # skipped @ CR # LF # rest) e)
           = (Inl (MsgTooLong (butlast msg) (int (length (skipped @ [CR, LF])))), src rest e)
       \<and> readMsgData_loop msg (src (c # skipped) e)
           = (Inl (MsgTooLong (butlast msg) (int (length skipped) + 1)), src [] e)"
  using assms
  by (simp add: guard_510 loop_full junk_found junk_ended)

text \<open>
  C3. The claim wants the error to carry all the bytes accumulated and the number of
  bytes discarded while resynchronizing. The code departs from it. On 511 bytes \<open>a\<close>
  followed by \<open>CR LF\<close> the loop reaches the length guard with 510 bytes accumulated, and
  the error carries 509 of them: \<open>msg[:len(msg)-1]\<close> drops an accumulated byte, although
  the byte that fired the guard was never appended. The count is not the same measure
  on the two ways out of \<open>junk\<close>: with the delimiter found the error says 2 for the two
  bytes \<open>junk\<close> read, with the source ended (511 bytes \<open>a\<close> and nothing more) it says 1
  though \<open>junk\<close> read none. \<open>junk\<close> itself answers 3 on \<open>x y CR LF\<close>, one more than the
  two bytes that are not part of the delimiter, which is what its comment promises.
\<close>

theorem C3_code_at_failing_input:
  "readMsgData (src (replicate 510 (CHR ''a'') @ CHR ''a'' # [CR, LF]) EOF)
     = readMsgData_loop (replicate 510 (CHR ''a'')) (src (CHR ''a'' # [CR, LF]) EOF)
   \<and> readMsgData_loop (replicate 510 (CHR ''a'')) (src (CHR ''a'' # [CR, LF]) EOF)
     = (Inl (MsgTooLong (replicate 509 (CHR ''a'')) 2), src [] EOF)
   \<and> length (replicate 509 (CHR ''a'')) \<noteq> length (replicate 510 (CHR ''a''))
   \<and> readMsgData (src (replicate 510 (CHR ''a'') @ [CHR ''a'']) EOF)
     = (Inl (MsgTooLong (replicate 509 (CHR ''a'')) 1), src [] EOF)
   \<and> junk (src (''xy'' @ [CR, LF]) EOF) = ((3, None), src [] EOF)"
proof -
  have "readMsgData (src (replicate 510 (CHR ''a'') @ CHR ''a'' # [CR, LF]) EOF)
     = readMsgData_loop (replicate 510 (CHR ''a'')) (src (CHR ''a'' # [CR, LF]) EOF)"
    using read_ordinary [of "replicate 510 (CHR ''a'')" "[]" "CHR ''a'' # [CR, LF]" EOF]
    by (simp add: readMsgData_def)
  moreover have "junk (src ([] @ CR # LF # []) EOF)
      = ((int (length ([]::string)) + 1, None), src [] EOF)"
    by (rule junk_found) simp
  then have "readMsgData_loop (replicate 510 (CHR ''a'')) (src (CHR ''a'' # [CR, LF]) EOF)
     = (Inl (MsgTooLong (replicate 509 (CHR ''a'')) 2), src [] EOF)"
    by (simp add: loop_full butlast_conv_take)
  moreover have "junk (src [] EOF) = ((int (length ([]::string)), Some EOF), src [] EOF)"
    by (rule junk_ended) simp
  then have "readMsgData (src (replicate 510 (CHR ''a'') @ [CHR ''a'']) EOF)
     = (Inl (MsgTooLong (replicate 509 (CHR ''a'')) 1), src [] EOF)"
    using read_too_long [of "replicate 510 (CHR ''a'')" "CHR ''a''" "[]" EOF]
    by (simp add: butlast_conv_take)
  moreover have "junk (src (''xy'' @ CR # LF # []) EOF)
      = ((int (length ''xy'') + 1, None), src [] EOF)"
    by (rule junk_found) simp
  ultimately show ?thesis by simp
qed

text \<open>
  Before a call has accumulated anything it may read any number of \<open>LF\<close> bytes and of
  empty frames \<open>CR LF\<close>; they leave the loop where it started.
\<close>

lemma skip_frames:
  "set frames \<subseteq> {[LF], [CR, LF]} \<Longrightarrow>
   readMsgData_loop [] (src (concat frames @ rest) e) = readMsgData_loop [] (src rest e)"
  by (induction frames) (auto simp: loop_LF loop_CR_LF)

lemma read_prefix:
  assumes "set frames \<subseteq> {[LF], [CR, LF]}" and "NUL \<notin> set pre" and "CR \<notin> set pre"
    and "length (filter (\<lambda>b. b \<noteq> LF) pre) \<le> 510"
  shows "readMsgData (src (concat frames @ pre @ rest) e)
           = readMsgData_loop (filter (\<lambda>b. b \<noteq> LF) pre) (src rest e)"
  using skip_frames [OF assms(1), of "pre @ rest" e] loop_accumulate [of pre "[]" rest e]
    assms(2-4)
  by (simp add: readMsgData_def)

text \<open>
  C7, as the code has it. As long as the length guard has not fired in the call, that
  is, after any skipped empty frames and stripped \<open>LF\<close> bytes the call has read no more
  than 510 bytes of the message: a \<open>NUL\<close> ends the call with the error "unexpected null",
  a \<open>CR\<close> followed by a byte other than \<open>LF\<close> ends it with "unexpected carrage return",
  a \<open>CR\<close> followed by the end of the source ends it with "unexpected end of file" (or
  with the error of a failing source), and no message is returned. The loop does so
  whatever it has accumulated. An \<open>LF\<close> read by the loop is dropped: the loop goes on as
  if it had not been there, and the message completed by the next \<open>CR LF\<close> holds none
  of them.
\<close>

theorem C7_invalid_bytes_while_accumulating:
  assumes "set frames \<subseteq> {[LF], [CR, LF]}"
    and "NUL \<notin> set pre" and "CR \<notin> set pre"
    and "length (filter (\<lambda>b. b \<noteq> LF) pre) \<le> 510"
  shows "readMsgData (src (concat frames @ pre @ NUL # rest) e)
           = (Inl (unexpected ''null''), src rest e)
       \<and> (c \<noteq> LF \<longrightarrow>
            readMsgData (src (concat frames @ pre @ CR # c # rest) e)
              = (Inl (unexpected ''carrage return''), src rest e))
       \<and> readMsgData (src (concat frames @ pre @ [CR]) e)
           = (Inl (if e = EOF then unexpected ''end of file'' else e), src [] e)
       \<and> readMsgData_loop msg (src (NUL # rest) e) = (Inl (unexpected ''null''), src rest e)
       \<and> (c \<noteq> LF \<longrightarrow>
            readMsgData_loop msg (src (CR # c # rest) e)
              = (Inl (unexpected ''carrage return''), src rest e))
       \<and> readMsgData_loop msg (src (LF # rest) e) = readMsgData_loop msg (src rest e)
       \<and> (filter (\<lambda>b. b \<noteq> LF) pre \<noteq> [] \<longrightarrow>
            readMsgData (src (concat frames @ pre @ CR # LF # rest) e)
              = (Inr (filter (\<lambda>b. b \<noteq> LF) pre), src rest e))"
  by (simp add: read_prefix [OF assms] loop_NUL loop_CR_other loop_CR_end loop_LF loop_CR_LF)

theorem C7_invalid_bytes_while_accumulating_witness:
  "readMsgData (src (concat [[CR, LF], [LF]] @ (''hello'' @ LF # '' there'') @ NUL # [CR, LF]) EOF)
     = (Inl (unexpected ''null''), src [CR, LF] EOF)
   \<and> readMsgData (src (concat [[CR, LF], [LF]] @ (''hello'' @ LF # '' there'') @ CR # CR # [LF]) EOF)
     = (Inl (unexpected ''carrage return''), src [LF] EOF)
   \<and> readMsgData (src (concat [[CR, LF], [LF]] @ (''hello'' @ LF # '' there'') @ CR # LF # ''b'') EOF)
     = (Inr ''hello there'', src ''b'' EOF)"
  using C7_invalid_bytes_while_accumulating
    [where frames = "[[CR, LF], [LF]]" and pre = "''hello'' @ LF # '' there''"
       and rest = "[CR, LF]" and e = EOF and c = CR]
    C7_invalid_bytes_while_accumulating
    [where frames = "[[CR, LF], [LF]]" and pre = "''hello'' @ LF # '' there''"
       and rest = "[LF]" and e = EOF and c = CR]
    C7_invalid_bytes_while_accumulating
    [where frames = "[[CR, LF], [LF]]" and pre = "''hello'' @ LF # '' there''"
       and rest = "''b''" and e = EOF and c = CR]
  by simp

text \<open>
  The claim C7 as stated fails for a stream whose message is already too long: after
  510 bytes \<open>a\<close> and one more, \<open>junk\<close> discards the \<open>NUL\<close> that comes before the next
  delimiter, and the call returns \<open>MsgTooLong\<close>, not an "unexpected" error.
\<close>

theorem C7_counterexample:
  "readMsgData (src (replicate 510 (CHR ''a'') @ CHR ''a'' # NUL # [CR, LF]) EOF)
     = (Inl (MsgTooLong (replicate 509 (CHR ''a'')) 3), src [] EOF)
   \<and> MsgTooLong (replicate 509 (CHR ''a'')) 3 \<noteq> unexpected ''null''"
proof -
  have "junk (src ([NUL] @ CR # LF # []) EOF) = ((int (length [NUL]) + 1, None), src [] EOF)"
    by (rule junk_found) simp
  then show ?thesis
    using read_too_long [of "replicate 510 (CHR ''a'')" "CHR ''a''" "NUL # [CR, LF]" EOF]
    by (simp add: butlast_conv_take unexpected_def)
qed

text \<open>
  C8, as the code has it. When the source ends where the loop reads the next byte of
  a message (after any skipped empty frames and stripped \<open>LF\<close> bytes the call has read
  no \<open>NUL\<close>, no \<open>CR\<close> and no more than 510 bytes of the message), the call returns
  \<open>io.EOF\<close> if nothing has been accumulated, and otherwise the error "unexpected end of
  file" with no text. When the source ends directly after a \<open>CR\<close> that the loop has read,
  the call returns "unexpected end of file" whatever has been accumulated, also
  nothing.
\<close>

theorem C8_end_of_stream_while_accumulating:
  assumes "set frames \<subseteq> {[LF], [CR, LF]}"
    and "NUL \<notin> set pre" and "CR \<notin> set pre"
    and "length (filter (\<lambda>b. b \<noteq> LF) pre) \<le> 510"
  shows "readMsgData (src (concat frames @ pre) EOF)
           = (if filter (\<lambda>b. b \<noteq> LF) pre = [] then Inl EOF
              else Inl (unexpected ''end of file''), src [] EOF)
       \<and> readMsgData (src (concat frames @ pre @ [CR]) EOF)
           = (Inl (unexpected ''end of file''), src [] EOF)
       \<and> readMsgData_loop msg (src [] EOF)
           = (if msg = [] then Inl EOF else Inl (unexpected ''end of file''), src [] EOF)
       \<and> readMsgData_loop msg (src [CR] EOF) = (Inl (unexpected ''end of file''), src [] EOF)"
  using read_prefix [OF assms, of "[]" EOF] read_prefix [OF assms, of "[CR]" EOF]
  by (simp add: loop_Nil loop_CR_end)

theorem C8_end_of_stream_while_accumulating_witness:
  "readMsgData (src (concat [[CR, LF]] @ [LF]) EOF) = (Inl EOF, src [] EOF)
   \<and> readMsgData (src (concat [[CR, LF]] @ ''a'') EOF)
       = (Inl (unexpected ''end of file''), src [] EOF)
   \<and> readMsgData (src (concat [[CR, LF]] @ [LF] @ [CR]) EOF)
       = (Inl (unexpected ''end of file''), src [] EOF)"
  using C8_end_of_stream_while_accumulating
    [where frames = "[[CR, LF]]" and pre = "[LF]" and msg = "[]"]
    C8_end_of_stream_while_accumulating
    [where frames = "[[CR, LF]]" and pre = "''a''" and msg = "[]"]
  by simp

text \<open>
  The claim C8 as stated fails in both halves. The source \<open>CR\<close> ends with nothing
  accumulated, and the call returns "unexpected end of file", not \<open>io.EOF\<close>. The source
  of 511 bytes \<open>a\<close> ends with 510 bytes accumulated, and the call returns \<open>MsgTooLong\<close>
  with 509 bytes of text, not "unexpected end of file".
\<close>

theorem C8_counterexample:
  "readMsgData_loop [] (src [CR] EOF) = (Inl (unexpected ''end of file''), src [] EOF)
   \<and> unexpected ''end of file'' \<noteq> EOF
   \<and> readMsgData (src (replicate 510 (CHR ''a'') @ [CHR ''a'']) EOF)
       = (Inl (MsgTooLong (replicate 509 (CHR ''a'')) 1), src [] EOF)
   \<and> MsgTooLong (replicate 509 (CHR ''a'')) 1 \<noteq> unexpected ''end of file''"
proof -
  have "junk (src [] EOF) = ((int (length ([]::string)), Some EOF), src [] EOF)"
    by (rule junk_ended) simp
  then show ?thesis
    using read_too_long [of "replicate 510 (CHR ''a'')" "CHR ''a''" "[]" EOF]
    by (simp add: butlast_conv_take unexpected_def loop_CR_end)
qed

section \<open>The codec: helper facts\<close>

lemma splitString_eq:
  "splitString s d =
     Some (takeWhile (\<lambda>c. c \<noteq> d) s,
           (if d = CHR '' '' then dropWhile (\<lambda>c. c = CHR '' '') else id)
             (drop 1 (dropWhile (\<lambda>c. c \<noteq> d) s)))"
proof (cases "d \<in> set s")
  case True
  then show ?thesis
    by (simp add: splitString_def SplitN2_def index_at_def slice_from_def TrimLeft_def)
next
  case False
  then have none: "takeWhile (\<lambda>c. c \<noteq> d) s = s" "dropWhile (\<lambda>c. c \<noteq> d) s = []"
    by (auto simp: takeWhile_eq_all_conv)
  show ?thesis
    unfolding none using False
    by (simp add: splitString_def SplitN2_def index_at_def slice_from_def TrimLeft_def)
qed

declare Parse_loop.simps [simp del]

lemma Parse_loop_Nil: "Parse_loop [] args = Some args"
  by (subst Parse_loop.simps) simp

lemma Parse_loop_colon: "Parse_loop (CHR '':'' # rest) args = Some (args @ [rest])"
  by (subst Parse_loop.simps) (simp add: index_at_def slice_from_def Parse_loop_Nil)

lemma Parse_loop_token:
  "c \<noteq> CHR '':'' \<Longrightarrow>
   Parse_loop (c # cs) args =
     Parse_loop (dropWhile (\<lambda>c. c = CHR '' '') (drop 1 (dropWhile (\<lambda>c. c \<noteq> CHR '' '') (c # cs))))
       (args @ [takeWhile (\<lambda>c. c \<noteq> CHR '' '') (c # cs)])"
  by (subst Parse_loop.simps) (simp add: index_at_def splitString_eq)

lemma Parse_loop_total: "\<exists>res. Parse_loop data args = Some res"
proof (induction data args rule: Parse_loop.induct)
  case (1 data args)
  show ?case
  proof (cases data)
    case Nil
    then show ?thesis by (simp add: Parse_loop_Nil)
  next
    case (Cons c cs)
    show ?thesis
    proof (cases "c = CHR '':''")
      case True
      with Cons show ?thesis by (simp add: Parse_loop_colon)
    next
      case False
      with Cons 1(2) [of c] show ?thesis
        by (simp add: Parse_loop_token index_at_def splitString_eq)
    qed
  qed
qed

lemma TrimRight_unchanged: "s = [] \<or> last s \<noteq> LF \<Longrightarrow> TrimRight s [LF] = s"
  by (cases s rule: rev_cases) (auto simp: TrimRight_def)

lemma TrimRight_decomp: "\<exists>k. s = TrimRight s [LF] @ replicate k LF"
proof (induction s rule: rev_induct)
  case Nil
  show ?case by (simp add: TrimRight_def)
next
  case (snoc x xs)
  show ?case
  proof (cases "x = LF")
    case True
    define t where "t = TrimRight xs [LF]"
    from snoc obtain k where k: "xs = t @ replicate k LF" unfolding t_def by blast
    have "TrimRight (xs @ [x]) [LF] = t"
      using True by (simp add: TrimRight_def t_def)
    moreover have "xs @ [x] = t @ replicate (Suc k) LF"
      using k True by (simp add: replicate_append_same)
    ultimately have "xs @ [x] = TrimRight (xs @ [x]) [LF] @ replicate (Suc k) LF"
      by simp
    then show ?thesis by blast
  next
    case False
    then have "xs @ [x] = TrimRight (xs @ [x]) [LF] @ replicate 0 LF"
      by (simp add: TrimRight_def)
    then show ?thesis by blast
  qed
qed

lemma TrimRight_end: "TrimRight s [LF] = [] \<or> last (TrimRight s [LF]) \<noteq> LF"
proof (induction s rule: rev_induct)
  case Nil
  show ?case by (simp add: TrimRight_def)
next
  case (snoc x xs)
  then show ?case by (cases "x = LF") (simp_all add: TrimRight_def)
qed

lemma guard_raw:
  "(MaxBytes - int (length delimiter) < int (length raw)) = (510 < length raw)"
  by (simp add: MaxBytes_def delimiter_def)

section \<open>Claims about RawString\<close>

text \<open>
  C4, as the code has it. \<open>RawString\<close> applies the length guard to the text as built,
  before any stripping: it fails exactly when that text is longer than 510 bytes, and
  the error then carries that text and the number of bytes above 510. Otherwise it
  returns the text without its trailing newline bytes and removes nothing else.
\<close>

theorem C4_guard_then_strip:
  "((\<exists>err. RawString m = Inl err) \<longleftrightarrow> MaxBytes - int (length delimiter) < int (length (buildRaw m)))
   \<and> (510 < length (buildRaw m) \<longrightarrow>
        RawString m = Inl (MsgTooLong (buildRaw m) (int (length (buildRaw m)) - 510)))
   \<and> (length (buildRaw m) \<le> 510 \<longrightarrow>
        (\<exists>s k. RawString m = Inr s \<and> buildRaw m = s @ replicate k LF
               \<and> (s = [] \<or> last s \<noteq> LF)))"
proof -
  have "\<exists>k. buildRaw m = TrimRight (buildRaw m) [LF] @ replicate k LF"
    by (rule TrimRight_decomp)
  then obtain k where "buildRaw m = TrimRight (buildRaw m) [LF] @ replicate k LF" ..
  moreover have "TrimRight (buildRaw m) [LF] = [] \<or> last (TrimRight (buildRaw m) [LF]) \<noteq> LF"
    by (rule TrimRight_end)
  ultimately have strip: "length (buildRaw m) \<le> 510 \<longrightarrow>
        (\<exists>s k. RawString m = Inr s \<and> buildRaw m = s @ replicate k LF
               \<and> (s = [] \<or> last s \<noteq> LF))"
    by (auto simp: RawString_def guard_raw Let_def)
  have "(\<exists>err. RawString m = Inl err) \<longleftrightarrow> MaxBytes - int (length delimiter) < int (length (buildRaw m))"
    by (simp add: RawString_def Let_def)
  moreover have "510 < length (buildRaw m) \<longrightarrow>
        RawString m = Inl (MsgTooLong (buildRaw m) (int (length (buildRaw m)) - 510))"
    by (simp add: RawString_def Let_def guard_raw MaxBytes_def delimiter_def)
  ultimately show ?thesis using strip by blast
qed

theorem C4_guard_then_strip_witness:
  "RawString \<lparr>Raw = replicate 511 (CHR ''a''), Origin = [], User = [], Host = [],
              Command = [], Arguments = []\<rparr>
     = Inl (MsgTooLong (replicate 511 (CHR ''a'')) 1)
   \<and> (\<exists>s k. RawString \<lparr>Raw = ''PING'' @ [LF, LF], Origin = [], User = [], Host = [],
                         Command = [], Arguments = []\<rparr> = Inr s
            \<and> ''PING'' @ [LF, LF] = s @ replicate k LF \<and> (s = [] \<or> last s \<noteq> LF))"
  using C4_guard_then_strip
    [of "\<lparr>Raw = replicate 511 (CHR ''a''), Origin = [], User = [], Host = [],
          Command = [], Arguments = []\<rparr>"]
    C4_guard_then_strip
    [of "\<lparr>Raw = ''PING'' @ [LF, LF], Origin = [], User = [], Host = [],
          Command = [], Arguments = []\<rparr>"]
  by (simp add: buildRaw_def)

text \<open>
  The claim C4 as stated fails: for a stored text of 510 bytes \<open>a\<close> and one newline,
  the text without its trailing newline has 510 bytes, which is within the bound, and
  \<open>RawString\<close> fails all the same, reporting the 511 bytes and an excess of one.
\<close>

theorem C4_counterexample:
  "RawString \<lparr>Raw = replicate 510 (CHR ''a'') @ [LF], Origin = [], User = [], Host = [],
              Command = [], Arguments = []\<rparr>
     = Inl (MsgTooLong (replicate 510 (CHR ''a'') @ [LF]) 1)
   \<and> TrimRight (buildRaw \<lparr>Raw = replicate 510 (CHR ''a'') @ [LF], Origin = [], User = [],
                           Host = [], Command = [], Arguments = []\<rparr>) [LF]
     = replicate 510 (CHR ''a'')
   \<and> \<not> MaxBytes - int (length delimiter) < int (length (replicate 510 (CHR ''a'')))"
  by (simp add: RawString_def buildRaw_def TrimRight_def MaxBytes_def delimiter_def)

text \<open>
  C5, as the code has it. For a message whose \<open>Raw\<close> is non-empty and at most 510 bytes
  long, \<open>RawString\<close> returns \<open>Raw\<close> without its trailing newline bytes, whatever the other
  fields hold; it returns \<open>Raw\<close> itself when \<open>Raw\<close> does not end in a newline.
\<close>

theorem C5_raw_returned_stripped:
  assumes "Raw m \<noteq> []" and "int (length (Raw m)) \<le> MaxBytes - 2"
  shows "RawString m = Inr (TrimRight (Raw m) [LF])
       \<and> (\<exists>k. Raw m = TrimRight (Raw m) [LF] @ replicate k LF)
       \<and> (TrimRight (Raw m) [LF] = [] \<or> last (TrimRight (Raw m) [LF]) \<noteq> LF)
       \<and> (last (Raw m) \<noteq> LF \<longrightarrow> RawString m = Inr (Raw m))"
proof -
  from assms have raw: "RawString m = Inr (TrimRight (Raw m) [LF])"
    by (simp add: RawString_def buildRaw_def MaxBytes_def delimiter_def)
  moreover have "last (Raw m) \<noteq> LF \<longrightarrow> RawString m = Inr (Raw m)"
    using raw by (simp add: TrimRight_unchanged)
  ultimately show ?thesis
    using TrimRight_decomp [of "Raw m"] TrimRight_end [of "Raw m"] by blast
qed

theorem C5_raw_returned_stripped_witness:
  "RawString \<lparr>Raw = ''PING :irc.example.net'', Origin = ''nick'', User = [], Host = [],
              Command = ''JOIN'', Arguments = [''#x'']\<rparr> = Inr ''PING :irc.example.net''"
  using C5_raw_returned_stripped
    [of "\<lparr>Raw = ''PING :irc.example.net'', Origin = ''nick'', User = [], Host = [],
          Command = ''JOIN'', Arguments = [''#x'']\<rparr>"]
  by (simp add: MaxBytes_def TrimRight_def)

text \<open>
  The claim C5 as stated fails for a \<open>Raw\<close> that ends in a newline: the six bytes
  \<open>PING\<close>, \<open>LF\<close>, \<open>LF\<close> come back as the four bytes \<open>PING\<close>.
\<close>

theorem C5_counterexample:
  "RawString \<lparr>Raw = ''PING'' @ [LF, LF], Origin = [], User = [], Host = [],
              Command = [], Arguments = []\<rparr> = Inr ''PING''
   \<and> ''PING'' \<noteq> ''PING'' @ [LF, LF]"
  by (simp add: RawString_def buildRaw_def TrimRight_def MaxBytes_def delimiter_def)

section \<open>Claims about Parse\<close>

text \<open>
  C10. \<open>Parse\<close> of the empty string panics at \<open>data[0]\<close>. No index expression of
  \<open>splitString\<close> or of the argument loop is out of range on any input, and \<open>Parse\<close> of a
  non-empty string returns a message and a nil error.
\<close>

theorem C10_parse_needs_nonempty_input:
  "Parse [] = None
   \<and> (\<exists>head cons. splitString s delim = Some (head, cons))
   \<and> (\<exists>args'. Parse_loop rest args = Some args')
   \<and> (data \<noteq> [] \<longrightarrow> (\<exists>msg. Parse data = Some (Inr msg)))"
proof -
  have "Parse [] = None"
    by (simp add: Parse_def index_at_def)
  moreover have "\<exists>head cons. splitString s delim = Some (head, cons)"
    by (simp add: splitString_eq)
  moreover have "\<exists>args'. Parse_loop rest args = Some args'"
    by (rule Parse_loop_total)
  moreover have "\<exists>msg. Parse data = Some (Inr msg)" if "data \<noteq> []"
  proof -
    from that obtain c cs where data: "data = c # cs" by (cases data) auto
    obtain a1 where "Parse_loop
        (dropWhile (\<lambda>c. c = CHR '' '') (drop 1 (dropWhile (\<lambda>c. c \<noteq> CHR '' '')
          (dropWhile (\<lambda>c. c = CHR '' '') (drop 1 (dropWhile (\<lambda>c. c \<noteq> CHR '' '') cs))))))
        [] = Some a1"
      using Parse_loop_total by blast
    moreover obtain a2 where "Parse_loop
        (dropWhile (\<lambda>c. c = CHR '' '') (drop 1 (dropWhile (\<lambda>c. c \<noteq> CHR '' '') data))) []
        = Some a2"
      using Parse_loop_total by blast
    ultimately show ?thesis
      unfolding data
      by (cases "c = CHR '':''")
         (simp_all add: Parse_def index_at_def slice_from_def splitString_eq)
  qed
  ultimately show ?thesis by blast
qed

theorem C10_parse_needs_nonempty_input_witness:
  "Parse [] = None \<and> (\<exists>msg. Parse ''JOIN #x'' = Some (Inr msg))"
  using C10_parse_needs_nonempty_input [of "[]" "CHR '' ''" "[]" "[]" "''JOIN #x''"]
  by simp

text \<open>
  \<open>Parse\<close> with the calls of \<open>splitString\<close> worked out: for an input that does not start
  with a colon, and for one that does.
\<close>

lemma Parse_plain:
  "c \<noteq> CHR '':'' \<Longrightarrow>
   Parse (c # cs) =
     (case Parse_loop
             (dropWhile (\<lambda>c. c = CHR '' '') (drop 1 (dropWhile (\<lambda>c. c \<noteq> CHR '' '') (c # cs))))
             [] of
        None \<Rightarrow> None
      | Some args \<Rightarrow>
          Some (Inr \<lparr>Raw = c # cs, Origin = [], User = [], Host = [],
                     Command = takeWhile (\<lambda>c. c \<noteq> CHR '' '') (c # cs), Arguments = args\<rparr>))"
  by (simp add: Parse_def index_at_def splitString_eq split: option.split)

lemma Parse_prefixed:
  "Parse (CHR '':'' # cs) =
     (let prefix = takeWhile (\<lambda>c. c \<noteq> CHR '' '') cs;
          data = dropWhile (\<lambda>c. c = CHR '' '') (drop 1 (dropWhile (\<lambda>c. c \<noteq> CHR '' '') cs));
          prefix' = drop 1 (dropWhile (\<lambda>c. c \<noteq> CHR ''!'') prefix)
      in case Parse_loop
                (dropWhile (\<lambda>c. c = CHR '' '') (drop 1 (dropWhile (\<lambda>c. c \<noteq> CHR '' '') data)))
                [] of
           None \<Rightarrow> None
         | Some args \<Rightarrow>
             Some (Inr \<lparr>Raw = CHR '':'' # cs,
                        Origin = takeWhile (\<lambda>c. c \<noteq> CHR ''!'') prefix,
                        User = takeWhile (\<lambda>c. c \<noteq> CHR ''@'') prefix',
                        Host = drop 1 (dropWhile (\<lambda>c. c \<noteq> CHR ''@'') prefix'),
                        Command = takeWhile (\<lambda>c. c \<noteq> CHR '' '') data, Arguments = args\<rparr>))"
  by (simp add: Parse_def index_at_def slice_from_def splitString_eq Let_def split: option.split)

lemma trimmed_start:
  "dropWhile (\<lambda>c. c = CHR '' '') s = [] \<or> hd (dropWhile (\<lambda>c. c = CHR '' '') s) \<noteq> CHR '' ''"
  using hd_dropWhile [of "\<lambda>c. c = CHR '' ''" s] by blast

lemma dropWhile_spaces_id:
  "s = [] \<or> hd s \<noteq> CHR '' '' \<Longrightarrow> dropWhile (\<lambda>c. c = CHR '' '') s = s"
  by (cases s) auto

lemma token_split:
  assumes "CHR '' '' \<notin> set tok"
  shows "takeWhile (\<lambda>c. c \<noteq> CHR '' '') (tok @ CHR '' '' # ys) = tok"
    and "dropWhile (\<lambda>c. c \<noteq> CHR '' '') (tok @ CHR '' '' # ys) = CHR '' '' # ys"
    and "takeWhile (\<lambda>c. c \<noteq> CHR '' '') tok = tok"
    and "dropWhile (\<lambda>c. c \<noteq> CHR '' '') tok = []"
  using assms by (induction tok) auto

lemma Parse_loop_last_token:
  assumes "tok \<noteq> []" and "CHR '' '' \<notin> set tok" and "hd tok \<noteq> CHR '':''"
  shows "Parse_loop tok args = Some (args @ [tok])"
proof -
  from assms(1) obtain c cs where tok: "tok = c # cs" by (cases tok) auto
  with assms(3) have c: "c \<noteq> CHR '':''" by simp
  show ?thesis
    using Parse_loop_token [OF c, of cs args] token_split(3,4) [OF assms(2)]
    by (simp add: tok Parse_loop_Nil)
qed

lemma Parse_loop_step:
  assumes "tok \<noteq> []" and "CHR '' '' \<notin> set tok" and "hd tok \<noteq> CHR '':''"
    and "rest = [] \<or> hd rest \<noteq> CHR '' ''"
  shows "Parse_loop (tok @ replicate (Suc k) (CHR '' '') @ rest) args
           = Parse_loop rest (args @ [tok])"
proof -
  from assms(1) obtain c cs where tok: "tok = c # cs" by (cases tok) auto
  with assms(3) have c: "c \<noteq> CHR '':''" by simp
  have "dropWhile (\<lambda>c. c = CHR '' '') (replicate k (CHR '' '') @ rest) = rest"
    using assms(4) by (induction k) (auto simp: dropWhile_spaces_id)
  then have "Parse_loop ((c # cs) @ replicate (Suc k) (CHR '' '') @ rest) args
           = Parse_loop rest (args @ [c # cs])"
    using Parse_loop_token [OF c, of "cs @ replicate (Suc k) (CHR '' '') @ rest" args]
      token_split(1,2) [OF assms(2), of "replicate k (CHR '' '') @ rest"]
    by (simp add: tok)
  then show ?thesis by (simp add: tok)
qed

lemma Parse_loop_tokens:
  "data = [] \<or> hd data \<noteq> CHR '' '' \<Longrightarrow> Parse_loop data args = Some res \<Longrightarrow>
   \<exists>new. res = args @ new \<and> (\<forall>a \<in> set (butlast new). a \<noteq> [] \<and> CHR '' '' \<notin> set a)"
proof (induction data args arbitrary: res rule: Parse_loop.induct)
  case (1 data args)
  show ?case
  proof (cases data)
    case Nil
    with 1(4) show ?thesis by (simp add: Parse_loop_Nil)
  next
    case (Cons c cs)
    show ?thesis
    proof (cases "c = CHR '':''")
      case True
      with Cons 1(4) show ?thesis by (auto simp: Parse_loop_colon)
    next
      case False
      define tok where "tok = takeWhile (\<lambda>c. c \<noteq> CHR '' '') data"
      define data' where
        "data' = dropWhile (\<lambda>c. c = CHR '' '') (drop 1 (dropWhile (\<lambda>c. c \<noteq> CHR '' '') data))"
      from 1(3) Cons have sp: "c \<noteq> CHR '' ''" by simp
      then have tok: "tok \<noteq> []" "CHR '' '' \<notin> set tok"
        using set_takeWhileD [of "CHR '' ''" "\<lambda>c. c \<noteq> CHR '' ''" data]
        by (auto simp: tok_def Cons)
      have start: "data' = [] \<or> hd data' \<noteq> CHR '' ''"
        unfolding data'_def by (rule trimmed_start)
      have run: "Parse_loop data' (args @ [tok]) = Some res"
        using 1(4) False Parse_loop_token [OF False, of cs args]
        by (simp add: Cons tok_def data'_def)
      have "\<exists>new. res = (args @ [tok]) @ new
               \<and> (\<forall>a \<in> set (butlast new). a \<noteq> [] \<and> CHR '' '' \<notin> set a)"
      proof (rule 1(2) [of c "(tok, data')" tok data'])
        show "0 < length data" by (simp add: Cons)
        show "index_at data 0 = Some c" by (simp add: index_at_def Cons)
        show "c \<noteq> CHR '':''" by (rule False)
        show "splitString data (CHR '' '') = Some (tok, data')"
          by (simp add: splitString_eq tok_def data'_def)
        show "(tok, data') = (tok, data')" ..
        show "data' = [] \<or> hd data' \<noteq> CHR '' ''" by (rule start)
        show "Parse_loop data' (args @ [tok]) = Some res" by (rule run)
      qed
      then obtain new where new: "res = (args @ [tok]) @ new"
        "\<forall>a \<in> set (butlast new). a \<noteq> [] \<and> CHR '' '' \<notin> set a" by blast
      have "res = args @ (tok # new)" using new(1) by simp
      moreover have "\<forall>a \<in> set (butlast (tok # new)). a \<noteq> [] \<and> CHR '' '' \<notin> set a"
        using new(2) tok by auto
      ultimately show ?thesis by blast
    qed
  qed
qed

lemma Parse_arguments_tokens:
  assumes "Parse data = Some (Inr m)"
  shows "\<forall>a \<in> set (butlast (Arguments m)). a \<noteq> [] \<and> CHR '' '' \<notin> set a"
proof -
  from assms have "data \<noteq> []" by (auto simp: Parse_def index_at_def)
  then obtain c cs where data: "data = c # cs" by (cases data) auto
  have "\<exists>d. Parse_loop (dropWhile (\<lambda>c. c = CHR '' '') d) [] = Some (Arguments m)"
  proof (cases "c = CHR '':''")
    case True
    define d where "d = drop 1 (dropWhile (\<lambda>c. c \<noteq> CHR '' '')
        (dropWhile (\<lambda>c. c = CHR '' '') (drop 1 (dropWhile (\<lambda>c. c \<noteq> CHR '' '') cs))))"
    have "Parse_loop (dropWhile (\<lambda>c. c = CHR '' '') d) [] = Some (Arguments m)"
      using assms unfolding data True Parse_prefixed Let_def d_def
      by (auto split: option.splits)
    then show ?thesis ..
  next
    case False
    define d where "d = drop 1 (dropWhile (\<lambda>c. c \<noteq> CHR '' '') (c # cs))"
    have "Parse_loop (dropWhile (\<lambda>c. c = CHR '' '') d) [] = Some (Arguments m)"
      using assms unfolding data Parse_plain [OF False] d_def
      by (auto split: option.splits)
    then show ?thesis ..
  qed
  then obtain d where "Parse_loop (dropWhile (\<lambda>c. c = CHR '' '') d) [] = Some (Arguments m)"
    by blast
  from Parse_loop_tokens [OF trimmed_start this] show ?thesis by simp
qed

declare spec_args.simps [simp del]

lemma spec_args_Nil: "spec_args [] = []"
  by (subst spec_args.simps) simp

lemma spec_args_space: "spec_args (CHR '' '' # rem) = spec_args rem"
  by (subst spec_args.simps, subst (2) spec_args.simps) simp

lemma spec_args_colon: "spec_args (CHR '':'' # rem) = [rem]"
  by (subst spec_args.simps) simp

lemma spec_args_token:
  "c \<noteq> CHR '' '' \<Longrightarrow> c \<noteq> CHR '':'' \<Longrightarrow>
   spec_args (c # cs) =
     takeWhile (\<lambda>c. c \<noteq> CHR '' '') (c # cs) # spec_args (dropWhile (\<lambda>c. c \<noteq> CHR '' '') (c # cs))"
  by (subst spec_args.simps) simp

lemma spec_args_trim: "spec_args (dropWhile (\<lambda>c. c = CHR '' '') rem) = spec_args rem"
  by (induction rem) (simp_all add: spec_args_space)

lemma spec_args_behind_token:
  assumes "x = [] \<or> hd x = CHR '' ''"
  shows "spec_args (dropWhile (\<lambda>c. c = CHR '' '') (drop 1 x)) = spec_args x"
proof (cases x)
  case Nil
  then show ?thesis by simp
next
  case (Cons y ys)
  with assms have "y = CHR '' ''" by simp
  with Cons show ?thesis by (simp add: spec_args_trim spec_args_space)
qed

lemma behind_token: "dropWhile (\<lambda>c. c \<noteq> CHR '' '') s = [] \<or> hd (dropWhile (\<lambda>c. c \<noteq> CHR '' '') s) = CHR '' ''"
  using hd_dropWhile [of "\<lambda>c. c \<noteq> CHR '' ''" s] by blast

lemma Parse_loop_spec_args:
  "data = [] \<or> hd data \<noteq> CHR '' '' \<Longrightarrow> Parse_loop data args = Some (args @ spec_args data)"
proof (induction data args rule: Parse_loop.induct)
  case (1 data args)
  show ?case
  proof (cases data)
    case Nil
    then show ?thesis by (simp add: Parse_loop_Nil spec_args_Nil)
  next
    case (Cons c cs)
    show ?thesis
    proof (cases "c = CHR '':''")
      case True
      with Cons show ?thesis by (simp add: Parse_loop_colon spec_args_colon)
    next
      case False
      define tok where "tok = takeWhile (\<lambda>c. c \<noteq> CHR '' '') data"
      define data' where
        "data' = dropWhile (\<lambda>c. c = CHR '' '') (drop 1 (dropWhile (\<lambda>c. c \<noteq> CHR '' '') data))"
      from 1(3) Cons have sp: "c \<noteq> CHR '' ''" by simp
      have "Parse_loop data' (args @ [tok]) = Some ((args @ [tok]) @ spec_args data')"
      proof (rule 1(2) [of c "(tok, data')" tok data'])
        show "0 < length data" by (simp add: Cons)
        show "index_at data 0 = Some c" by (simp add: index_at_def Cons)
        show "c \<noteq> CHR '':''" by (rule False)
        show "splitString data (CHR '' '') = Some (tok, data')"
          by (simp add: splitString_eq tok_def data'_def)
        show "(tok, data') = (tok, data')" ..
        show "data' = [] \<or> hd data' \<noteq> CHR '' ''"
          unfolding data'_def by (rule trimmed_start)
      qed
      moreover have "Parse_loop data args = Parse_loop data' (args @ [tok])"
        using Parse_loop_token [OF False, of cs args] by (simp add: Cons tok_def data'_def)
      moreover have "spec_args data' = spec_args (dropWhile (\<lambda>c. c \<noteq> CHR '' '') data)"
        unfolding data'_def by (rule spec_args_behind_token) (rule behind_token)
      moreover have "spec_args data = tok # spec_args (dropWhile (\<lambda>c. c \<noteq> CHR '' '') data)"
        using spec_args_token [OF sp False, of cs] by (simp add: Cons tok_def)
      ultimately show ?thesis by simp
    qed
  qed
qed

lemma Parse_plain_spec:
  assumes "c \<noteq> CHR '':''"
  shows "Parse (c # cs) =
           Some (Inr \<lparr>Raw = c # cs, Origin = [], User = [], Host = [],
                      Command = takeWhile (\<lambda>c. c \<noteq> CHR '' '') (c # cs),
                      Arguments = spec_args (dropWhile (\<lambda>c. c \<noteq> CHR '' '') (c # cs))\<rparr>)"
proof -
  define rem where "rem = dropWhile (\<lambda>c. c \<noteq> CHR '' '') (c # cs)"
  have "Parse_loop (dropWhile (\<lambda>c. c = CHR '' '') (drop 1 rem)) []
          = Some ([] @ spec_args (dropWhile (\<lambda>c. c = CHR '' '') (drop 1 rem)))"
    by (rule Parse_loop_spec_args) (rule trimmed_start)
  also have "spec_args (dropWhile (\<lambda>c. c = CHR '' '') (drop 1 rem)) = spec_args rem"
    unfolding rem_def by (rule spec_args_behind_token) (rule behind_token)
  finally have "Parse_loop (dropWhile (\<lambda>c. c = CHR '' '') (drop 1 rem)) [] = Some (spec_args rem)"
    by simp
  then show ?thesis
    unfolding Parse_plain [OF assms] rem_def by simp
qed

lemma Parse_prefixed_spec:
  "\<exists>m. Parse (CHR '':'' # cs) = Some (Inr m)
       \<and> Raw m = CHR '':'' # cs
       \<and> Origin m = takeWhile (\<lambda>c. c \<noteq> CHR ''!'') (takeWhile (\<lambda>c. c \<noteq> CHR '' '') cs)
       \<and> Command m = takeWhile (\<lambda>c. c \<noteq> CHR '' '')
                        (dropWhile (\<lambda>c. c = CHR '' '') (drop 1 (dropWhile (\<lambda>c. c \<noteq> CHR '' '') cs)))
       \<and> Arguments m = spec_args (dropWhile (\<lambda>c. c \<noteq> CHR '' '')
                        (dropWhile (\<lambda>c. c = CHR '' '') (drop 1 (dropWhile (\<lambda>c. c \<noteq> CHR '' '') cs))))"
proof -
  define data where
    "data = dropWhile (\<lambda>c. c = CHR '' '') (drop 1 (dropWhile (\<lambda>c. c \<noteq> CHR '' '') cs))"
  define rem where "rem = dropWhile (\<lambda>c. c \<noteq> CHR '' '') data"
  have "Parse_loop (dropWhile (\<lambda>c. c = CHR '' '') (drop 1 rem)) []
          = Some ([] @ spec_args (dropWhile (\<lambda>c. c = CHR '' '') (drop 1 rem)))"
    by (rule Parse_loop_spec_args) (rule trimmed_start)
  also have "spec_args (dropWhile (\<lambda>c. c = CHR '' '') (drop 1 rem)) = spec_args rem"
    unfolding rem_def by (rule spec_args_behind_token) (rule behind_token)
  finally have "Parse_loop (dropWhile (\<lambda>c. c = CHR '' '') (drop 1 rem)) [] = Some (spec_args rem)"
    by simp
  then show ?thesis
    unfolding Parse_prefixed Let_def rem_def data_def by simp
qed

text \<open>
  C9. In the argument loop, a remainder that starts with a colon becomes, without that
  colon and with its spaces, the last argument. Any other remainder loses its first
  space-delimited token to the argument list, together with the whole run of spaces
  after the token, so a token followed only by spaces is the last argument, and an
  empty remainder adds nothing. The loop returns the arguments that extraction in the
  words of the specification gives, and \<open>Parse\<close> returns, for an input without prefix
  and for one with a prefix, the message whose command is the token in front and whose
  arguments are those extracted from what follows the command. Every argument but the
  last of a parsed message is non-empty and free of spaces. The input
  \<open>JOIN #x ::trail\<close> has the arguments \<open>#x\<close> and \<open>:trail\<close>, and a command followed only
  by spaces has none.
\<close>

theorem C9_argument_extraction:
  "Parse_loop (CHR '':'' # trailing) args = Some (args @ [trailing])
   \<and> (tok \<noteq> [] \<and> CHR '' '' \<notin> set tok \<and> hd tok \<noteq> CHR '':''
        \<and> (rest = [] \<or> hd rest \<noteq> CHR '' '') \<longrightarrow>
        Parse_loop (tok @ replicate (Suc k) (CHR '' '') @ rest) args
          = Parse_loop rest (args @ [tok])
        \<and> Parse_loop (tok @ replicate k (CHR '' '')) args = Some (args @ [tok])
        \<and> Parse (tok @ replicate k (CHR '' ''))
            = Some (Inr \<lparr>Raw = tok @ replicate k (CHR '' ''), Origin = [], User = [],
                         Host = [], Command = tok, Arguments = []\<rparr>))
   \<and> (Parse data = Some (Inr m) \<longrightarrow>
        (\<forall>a \<in> set (butlast (Arguments m)). a \<noteq> [] \<and> CHR '' '' \<notin> set a))
   \<and> Parse ''JOIN #x ::trail''
        = Some (Inr \<lparr>Raw = ''JOIN #x ::trail'', Origin = [], User = [], Host = [],
                     Command = ''JOIN'', Arguments = [''#x'', '':trail'']\<rparr>)
   \<and> Parse_loop [] args = Some args
   \<and> (data = [] \<or> hd data \<noteq> CHR '' '' \<longrightarrow>
        Parse_loop data args = Some (args @ spec_args data))
   \<and> (c \<noteq> CHR '':'' \<longrightarrow>
        Parse (c # cs)
          = Some (Inr \<lparr>Raw = c # cs, Origin = [], User = [], Host = [],
                       Command = takeWhile (\<lambda>c. c \<noteq> CHR '' '') (c # cs),
                       Arguments = spec_args (dropWhile (\<lambda>c. c \<noteq> CHR '' '') (c # cs))\<rparr>))
   \<and> (\<exists>p. Parse (CHR '':'' # cs) = Some (Inr p)
          \<and> Raw p = CHR '':'' # cs
          \<and> Origin p = takeWhile (\<lambda>c. c \<noteq> CHR ''!'') (takeWhile (\<lambda>c. c \<noteq> CHR '' '') cs)
          \<and> Command p = takeWhile (\<lambda>c. c \<noteq> CHR '' '')
                (dropWhile (\<lambda>c. c = CHR '' '') (drop 1 (dropWhile (\<lambda>c. c \<noteq> CHR '' '') cs)))
          \<and> Arguments p = spec_args (dropWhile (\<lambda>c. c \<noteq> CHR '' '')
                (dropWhile (\<lambda>c. c = CHR '' '') (drop 1 (dropWhile (\<lambda>c. c \<noteq> CHR '' '') cs)))))"
proof -
  have step: "Parse_loop (tok @ replicate (Suc k) (CHR '' '') @ rest) args
          = Parse_loop rest (args @ [tok])
        \<and> Parse_loop (tok @ replicate k (CHR '' '')) args = Some (args @ [tok])
        \<and> Parse (tok @ replicate k (CHR '' ''))
            = Some (Inr \<lparr>Raw = tok @ replicate k (CHR '' ''), Origin = [], User = [],
                         Host = [], Command = tok, Arguments = []\<rparr>)"
    if t: "tok \<noteq> []" "CHR '' '' \<notin> set tok" "hd tok \<noteq> CHR '':''"
      and r: "rest = [] \<or> hd rest \<noteq> CHR '' ''"
  proof -
    have last_tok: "Parse_loop (tok @ replicate k (CHR '' '')) args = Some (args @ [tok])"
    proof (cases k)
      case 0
      then show ?thesis using Parse_loop_last_token [OF t] by simp
    next
      case (Suc j)
      then show ?thesis
        using Parse_loop_step [OF t, of "[]" j args] by (simp add: Parse_loop_Nil)
    qed
    from t obtain c' cs' where tok: "tok = c' # cs'" "c' \<noteq> CHR '':''"
      by (cases tok) auto
    have spaces: "spec_args (replicate k (CHR '' '')) = []"
      by (induction k) (simp_all add: spec_args_Nil spec_args_space)
    have cut: "takeWhile (\<lambda>c. c \<noteq> CHR '' '') (tok @ replicate k (CHR '' '')) = tok"
      "dropWhile (\<lambda>c. c \<noteq> CHR '' '') (tok @ replicate k (CHR '' '')) = replicate k (CHR '' '')"
      using t(2) by (cases k; simp add: token_split)+
    have "Parse (c' # (cs' @ replicate k (CHR '' '')))
            = Some (Inr \<lparr>Raw = c' # (cs' @ replicate k (CHR '' '')), Origin = [], User = [],
                         Host = [], Command = tok, Arguments = []\<rparr>)"
      using cut unfolding Parse_plain_spec [OF tok(2)] by (simp add: tok(1) spaces)
    then have "Parse (tok @ replicate k (CHR '' ''))
            = Some (Inr \<lparr>Raw = tok @ replicate k (CHR '' ''), Origin = [], User = [],
                         Host = [], Command = tok, Arguments = []\<rparr>)"
      by (simp add: tok(1))
    with last_tok Parse_loop_step [OF t r] show ?thesis by simp
  qed
  have example: "Parse ''JOIN #x ::trail''
        = Some (Inr \<lparr>Raw = ''JOIN #x ::trail'', Origin = [], User = [], Host = [],
                     Command = ''JOIN'', Arguments = [''#x'', '':trail'']\<rparr>)"
    by (simp add: Parse_plain Parse_loop_token Parse_loop_colon)
  have refine: "data = [] \<or> hd data \<noteq> CHR '' '' \<longrightarrow>
        Parse_loop data args = Some (args @ spec_args data)"
    using Parse_loop_spec_args [of data args] by blast
  have plain: "c \<noteq> CHR '':'' \<longrightarrow>
        Parse (c # cs)
          = Some (Inr \<lparr>Raw = c # cs, Origin = [], User = [], Host = [],
                       Command = takeWhile (\<lambda>c. c \<noteq> CHR '' '') (c # cs),
                       Arguments = spec_args (dropWhile (\<lambda>c. c \<noteq> CHR '' '') (c # cs))\<rparr>)"
    using Parse_plain_spec [of c cs] by blast
  have inv: "Parse data = Some (Inr m) \<longrightarrow>
        (\<forall>a \<in> set (butlast (Arguments m)). a \<noteq> [] \<and> CHR '' '' \<notin> set a)"
    using Parse_arguments_tokens [of data m] by blast
  show ?thesis
    using step example inv refine plain Parse_prefixed_spec [of cs]
      Parse_loop_colon [of trailing args] Parse_loop_Nil [of args]
    by (intro conjI impI) blast+
qed

theorem C9_argument_extraction_witness:
  "Parse_loop (CHR '':'' # ''hello  world'') [''#x''] = Some ([''#x''] @ [''hello  world''])
   \<and> Parse_loop (''#x'' @ replicate (Suc 2) (CHR '' '') @ ''foo'') []
       = Parse_loop ''foo'' ([] @ [''#x''])
   \<and> Parse_loop (''#x'' @ replicate 2 (CHR '' '')) [] = Some ([] @ [''#x''])
   \<and> Parse (''JOIN'' @ replicate 2 (CHR '' ''))
       = Some (Inr \<lparr>Raw = ''JOIN'' @ replicate 2 (CHR '' ''), Origin = [], User = [],
                    Host = [], Command = ''JOIN'', Arguments = []\<rparr>)
   \<and> Parse_loop ''#x  foo :bar baz'' [] = Some ([] @ spec_args ''#x  foo :bar baz'')"
  using C9_argument_extraction
    [where trailing = "''hello  world''" and args = "[''#x'']" and tok = "''#x''"
       and rest = "''foo''" and k = 2 and data = "''#x  foo :bar baz''"]
    C9_argument_extraction
    [where trailing = "''hello  world''" and args = "[]" and tok = "''#x''"
       and rest = "''foo''" and k = 2 and data = "''#x  foo :bar baz''"]
    C9_argument_extraction
    [where trailing = "''hello  world''" and args = "[]" and tok = "''JOIN''"
       and rest = "''foo''" and k = 2 and data = "''#x  foo :bar baz''"]
  by simp

section \<open>Serialize, then parse\<close>

text \<open>The \<open>range\<close> loop of \<open>RawString\<close> in closed form.\<close>

lemma range_loop:
  "k + length args = n \<Longrightarrow>
   foldl (\<lambda>raw (i, a). if i = n - 1 then raw @ '' :'' @ a else raw @ '' '' @ a) raw
       (List.enumerate k args)
     = raw @ concat (map (\<lambda>a. CHR '' '' # a) (butlast args))
         @ (if args = [] then [] else '' :'' @ last args)"
proof (induction args arbitrary: raw k)
  case Nil
  show ?case by simp
next
  case (Cons a args)
  show ?case
  proof (cases "args = []")
    case True
    with Cons.prems show ?thesis by auto
  next
    case False
    with Cons.prems have "k \<noteq> n - 1" by (cases args) auto
    moreover have "Suc k + length args = n" using Cons.prems by simp
    ultimately show ?thesis
      using False Cons.IH [of "Suc k" "raw @ '' '' @ a"] by simp
  qed
qed

lemma buildRaw_fields:
  "Raw m = [] \<Longrightarrow>
   buildRaw m =
     (if Origin m \<noteq> [] then
        CHR '':'' # Origin m
          @ (if User m \<noteq> [] then CHR ''!'' # User m @ CHR ''@'' # Host m else [])
          @ '' ''
      else [])
     @ Command m
     @ concat (map (\<lambda>a. CHR '' '' # a) (butlast (Arguments m)))
     @ (if Arguments m = [] then [] else '' :'' @ last (Arguments m))"
proof -
  assume raw: "Raw m = []"
  have fold: "foldl (\<lambda>raw (i, a).
                     if i = length (Arguments m) - 1 then raw @ '' :'' @ a
                     else raw @ '' '' @ a)
              raw (List.enumerate 0 (Arguments m))
     = raw @ concat (map (\<lambda>a. CHR '' '' # a) (butlast (Arguments m)))
         @ (if Arguments m = [] then [] else '' :'' @ last (Arguments m))" for raw
    by (rule range_loop) simp
  show ?thesis
    unfolding buildRaw_def Let_def fold using raw by simp
qed

lemma sep_split:
  assumes "d \<notin> set h"
  shows "takeWhile (\<lambda>c. c \<noteq> d) (h @ d # t) = h"
    and "dropWhile (\<lambda>c. c \<noteq> d) (h @ d # t) = d # t"
    and "takeWhile (\<lambda>c. c \<noteq> d) h = h"
    and "dropWhile (\<lambda>c. c \<noteq> d) h = []"
  using assms by (induction h) auto

lemma tail_shape:
  "concat (map (\<lambda>a. CHR '' '' # a) init) @ '' :'' @ lst
     = CHR '' '' # concat (map (\<lambda>a. a @ '' '') init) @ CHR '':'' # lst"
  by (induction init) auto

lemma tail_start:
  assumes "\<forall>a \<in> set init. a \<noteq> [] \<and> CHR '' '' \<notin> set a"
  shows "hd (concat (map (\<lambda>a. a @ '' '') init) @ CHR '':'' # lst) \<noteq> CHR '' ''"
proof (cases init)
  case Nil
  then show ?thesis by simp
next
  case (Cons a as)
  with assms obtain c cs where "a = c # cs" "c \<noteq> CHR '' ''" by (cases a) auto
  with Cons show ?thesis by simp
qed

lemma Parse_loop_arguments:
  assumes "\<forall>a \<in> set init. a \<noteq> [] \<and> CHR '' '' \<notin> set a \<and> hd a \<noteq> CHR '':''"
  shows "Parse_loop (concat (map (\<lambda>a. a @ '' '') init) @ CHR '':'' # lst) acc
           = Some (acc @ init @ [lst])"
  using assms
proof (induction init arbitrary: acc)
  case Nil
  show ?case by (simp add: Parse_loop_colon)
next
  case (Cons a init)
  let ?rest = "concat (map (\<lambda>a. a @ '' '') init) @ CHR '':'' # lst"
  from Cons.prems have a: "a \<noteq> []" "CHR '' '' \<notin> set a" "hd a \<noteq> CHR '':''" by auto
  from Cons.prems have "\<forall>a \<in> set init. a \<noteq> [] \<and> CHR '' '' \<notin> set a" by auto
  then have "hd ?rest \<noteq> CHR '' ''" by (rule tail_start)
  then have "?rest = [] \<or> hd ?rest \<noteq> CHR '' ''" ..
  from Parse_loop_step [OF a this, of 0 acc]
  have "Parse_loop (a @ '' '' @ ?rest) acc = Parse_loop ?rest (acc @ [a])" by simp
  also have "\<dots> = Some ((acc @ [a]) @ init @ [lst])"
    using Cons.prems by (intro Cons.IH) auto
  finally show ?case by simp
qed

text \<open>
  C1, as the code has it. Let \<open>m\<close> have an empty \<open>Raw\<close>; an origin without space and
  \<open>!\<close>; a user without space and \<open>@\<close> and a host without space, both present or both
  absent, and both absent when the origin is empty; a non-empty command without
  space that, when the origin is empty, does not start with a colon; arguments that,
  except for the final one, are non-empty, hold no space and do not start with a colon;
  and a final argument (the command, when there are no arguments) that does not end in
  a newline. If \<open>RawString\<close> succeeds on \<open>m\<close>, then \<open>Parse\<close> of its result returns a message
  with the origin, user, host, command and arguments of \<open>m\<close>.
\<close>

theorem C1_round_trip:
  assumes raw: "Raw m = []"
    and origin: "CHR '' '' \<notin> set (Origin m)" "CHR ''!'' \<notin> set (Origin m)"
    and user: "CHR '' '' \<notin> set (User m)" "CHR ''@'' \<notin> set (User m)"
    and host: "CHR '' '' \<notin> set (Host m)"
    and both: "(User m = []) = (Host m = [])"
    and plain: "Origin m = [] \<longrightarrow> User m = [] \<and> hd (Command m) \<noteq> CHR '':''"
    and cmd: "Command m \<noteq> []" "CHR '' '' \<notin> set (Command m)"
    and args: "\<forall>a \<in> set (butlast (Arguments m)).
                 a \<noteq> [] \<and> CHR '' '' \<notin> set a \<and> hd a \<noteq> CHR '':''"
    and nl: "last (Command m # Arguments m) = []
               \<or> last (last (Command m # Arguments m)) \<noteq> LF"
    and ok: "RawString m = Inr text"
  shows "\<exists>p. Parse text = Some (Inr p) \<and> Origin p = Origin m \<and> User p = User m
             \<and> Host p = Host m \<and> Command p = Command m \<and> Arguments p = Arguments m"
proof -
  define init where "init = butlast (Arguments m)"
  define lst where "lst = last (Arguments m)"
  define tail where
    "tail = (if Arguments m = [] then []
             else CHR '' '' # concat (map (\<lambda>a. a @ '' '') init) @ CHR '':'' # lst)"
  define pfx where
    "pfx = Origin m @ (if User m \<noteq> [] then CHR ''!'' # User m @ CHR ''@'' # Host m else [])"
  have built: "buildRaw m
      = (if Origin m \<noteq> [] then CHR '':'' # pfx @ '' '' else []) @ Command m @ tail"
    using buildRaw_fields [OF raw] tail_shape [of init lst]
    by (simp add: tail_def pfx_def init_def lst_def)
  \<comment> \<open>the text does not end in a newline, so \<open>TrimRight\<close> leaves it as it is\<close>
  have last_tail: "last (Command m @ tail) \<noteq> LF"
  proof (cases "Arguments m = []")
    case True
    with nl cmd show ?thesis by (simp add: tail_def)
  next
    case False
    with nl have "lst = [] \<or> last lst \<noteq> LF" by (simp add: lst_def)
    with False show ?thesis by (auto simp: tail_def)
  qed
  have "Command m @ tail \<noteq> []" using cmd by simp
  with last_tail have "buildRaw m \<noteq> []" "last (buildRaw m) \<noteq> LF"
    by (simp_all add: built)
  then have "TrimRight (buildRaw m) [LF] = buildRaw m"
    by (simp add: TrimRight_unchanged)
  with ok have wire: "text = buildRaw m"
    by (simp add: RawString_def Let_def split: if_splits)
  \<comment> \<open>the argument loop on what follows the command\<close>
  have init: "\<forall>a \<in> set init. a \<noteq> [] \<and> CHR '' '' \<notin> set a \<and> hd a \<noteq> CHR '':''"
    using args by (simp add: init_def)
  have loop: "Parse_loop (drop 1 tail) [] = Some (Arguments m)"
  proof (cases "Arguments m = []")
    case True
    then show ?thesis by (simp add: tail_def Parse_loop_Nil)
  next
    case False
    then have "init @ [lst] = Arguments m" by (simp add: init_def lst_def)
    with False Parse_loop_arguments [OF init, of lst "[]"] show ?thesis
      by (simp add: tail_def)
  qed
  have start: "hd (concat (map (\<lambda>a. a @ '' '') init) @ CHR '':'' # lst) \<noteq> CHR '' ''"
    using init by (intro tail_start) auto
  have csplit: "takeWhile (\<lambda>c. c \<noteq> CHR '' '') (Command m @ tail) = Command m"
    "dropWhile (\<lambda>c. c = CHR '' '') (drop 1 (dropWhile (\<lambda>c. c \<noteq> CHR '' '') (Command m @ tail)))
       = drop 1 tail"
  proof -
    show "takeWhile (\<lambda>c. c \<noteq> CHR '' '') (Command m @ tail) = Command m"
      using sep_split(1,3) [OF cmd(2)] by (simp add: tail_def)
    show "dropWhile (\<lambda>c. c = CHR '' '')
            (drop 1 (dropWhile (\<lambda>c. c \<noteq> CHR '' '') (Command m @ tail))) = drop 1 tail"
      using sep_split(2,4) [OF cmd(2)] start
      by (simp add: tail_def dropWhile_spaces_id)
  qed
  from cmd obtain c cs where c: "Command m = c # cs" "c \<noteq> CHR '' ''"
    by (cases "Command m") auto
  show ?thesis
  proof (cases "Origin m = []")
    case True
    with plain c have colon: "c \<noteq> CHR '':''" by simp
    from True have "text = c # (cs @ tail)" by (simp add: wire built c)
    moreover have "Parse (c # (cs @ tail))
        = Some (Inr \<lparr>Raw = c # (cs @ tail), Origin = [], User = [], Host = [],
                     Command = Command m, Arguments = Arguments m\<rparr>)"
      using csplit loop unfolding c(1) by (simp add: Parse_plain [OF colon])
    ultimately show ?thesis using True plain both by simp
  next
    case False
    have nosp: "CHR '' '' \<notin> set pfx"
      using origin(1) user(1) host by (simp add: pfx_def)
    have wire': "text = CHR '':'' # (pfx @ CHR '' '' # (Command m @ tail))"
      using False by (simp add: wire built)
    have data: "takeWhile (\<lambda>c. c \<noteq> CHR '' '') (pfx @ CHR '' '' # (Command m @ tail)) = pfx"
      "dropWhile (\<lambda>c. c = CHR '' '')
         (drop 1 (dropWhile (\<lambda>c. c \<noteq> CHR '' '') (pfx @ CHR '' '' # (Command m @ tail))))
         = Command m @ tail"
      using sep_split(1,2) [OF nosp] c by simp_all
    have who: "takeWhile (\<lambda>c. c \<noteq> CHR ''!'') pfx = Origin m"
      "takeWhile (\<lambda>c. c \<noteq> CHR ''@'') (drop 1 (dropWhile (\<lambda>c. c \<noteq> CHR ''!'') pfx)) = User m"
      "drop 1 (dropWhile (\<lambda>c. c \<noteq> CHR ''@'') (drop 1 (dropWhile (\<lambda>c. c \<noteq> CHR ''!'') pfx)))
         = Host m"
    proof -
      have "takeWhile (\<lambda>c. c \<noteq> CHR ''!'') pfx = Origin m
        \<and> takeWhile (\<lambda>c. c \<noteq> CHR ''@'') (drop 1 (dropWhile (\<lambda>c. c \<noteq> CHR ''!'') pfx)) = User m
        \<and> drop 1 (dropWhile (\<lambda>c. c \<noteq> CHR ''@'') (drop 1 (dropWhile (\<lambda>c. c \<noteq> CHR ''!'') pfx)))
            = Host m"
      proof (cases "User m = []")
        case True
        with both show ?thesis
          by (simp add: pfx_def sep_split(3,4) [OF origin(2)])
      next
        case False
        then show ?thesis
          by (simp add: pfx_def sep_split(1,2) [OF origin(2)] sep_split(1,2) [OF user(2)])
      qed
      then show "takeWhile (\<lambda>c. c \<noteq> CHR ''!'') pfx = Origin m"
        "takeWhile (\<lambda>c. c \<noteq> CHR ''@'') (drop 1 (dropWhile (\<lambda>c. c \<noteq> CHR ''!'') pfx)) = User m"
        "drop 1 (dropWhile (\<lambda>c. c \<noteq> CHR ''@'') (drop 1 (dropWhile (\<lambda>c. c \<noteq> CHR ''!'') pfx)))
           = Host m"
        by simp_all
    qed
    have "Parse (CHR '':'' # (pfx @ CHR '' '' # (Command m @ tail)))
        = Some (Inr \<lparr>Raw = CHR '':'' # (pfx @ CHR '' '' # (Command m @ tail)),
                     Origin = Origin m, User = User m, Host = Host m,
                     Command = Command m, Arguments = Arguments m\<rparr>)"
      unfolding Parse_prefixed Let_def data csplit loop who by simp
    with wire' show ?thesis by simp
  qed
qed

theorem C1_round_trip_witness:
  "RawString \<lparr>Raw = [], Origin = ''nick'', User = ''u'', Host = ''h'', Command = ''PRIVMSG'',
              Arguments = [''#x'', ''hello world'']\<rparr> = Inr '':nick!u@h PRIVMSG #x :hello world''
   \<and> (\<exists>p. Parse '':nick!u@h PRIVMSG #x :hello world'' = Some (Inr p) \<and> Origin p = ''nick''
          \<and> User p = ''u'' \<and> Host p = ''h'' \<and> Command p = ''PRIVMSG''
          \<and> Arguments p = [''#x'', ''hello world''])"
proof -
  have ok: "RawString \<lparr>Raw = [], Origin = ''nick'', User = ''u'', Host = ''h'',
      Command = ''PRIVMSG'', Arguments = [''#x'', ''hello world'']\<rparr>
      = Inr '':nick!u@h PRIVMSG #x :hello world''"
    by (simp add: RawString_def buildRaw_def enumerate_eq_zip upt_rec TrimRight_def
          MaxBytes_def delimiter_def)
  show ?thesis
    using ok C1_round_trip [OF _ _ _ _ _ _ _ _ _ _ _ _ ok]
    by simp
qed

text \<open>
  The claim C1 as stated fails: with a non-empty origin, user and host and no space in
  the first argument, that argument \<open>:)\<close> is written as it is, and \<open>Parse\<close> takes its
  colon for the trailing marker and returns the single argument \<open>) :hello\<close>.
\<close>

theorem C1_counterexample:
  "RawString \<lparr>Raw = [], Origin = ''nick'', User = ''u'', Host = ''h'', Command = ''PRIVMSG'',
              Arguments = ['':)'', ''hello'']\<rparr> = Inr '':nick!u@h PRIVMSG :) :hello''
   \<and> list_all (\<lambda>a. CHR '' '' \<notin> set a) (butlast ['':)'', ''hello''])
   \<and> Parse '':nick!u@h PRIVMSG :) :hello''
       = Some (Inr \<lparr>Raw = '':nick!u@h PRIVMSG :) :hello'', Origin = ''nick'', User = ''u'',
                    Host = ''h'', Command = ''PRIVMSG'', Arguments = ['') :hello'']\<rparr>)
   \<and> ['') :hello''] \<noteq> ['':)'', ''hello'']"
  by (simp add: RawString_def buildRaw_def enumerate_eq_zip upt_rec TrimRight_def
        MaxBytes_def delimiter_def Parse_prefixed Parse_loop_token Parse_loop_colon)

end
